theory Spec2Isabelle
  imports Main "HOL-Library.Multiset"
begin

section \<open>Values of the host language\<close>

text \<open>
  A property that holds a string or is missing reads as \<open>string option\<close>: \<open>None\<close> is
  JavaScript's \<open>undefined\<close>. A value is truthy unless it is \<open>undefined\<close> or the empty
  string, and \<open>a || b\<close> is \<open>a\<close> when \<open>a\<close> is truthy and \<open>b\<close> otherwise. Strict equality
  \<open>===\<close> on such values is equality of the options.
\<close>

definition truthy :: "string option \<Rightarrow> bool" where
  "truthy v = (case v of None \<Rightarrow> False | Some s \<Rightarrow> s \<noteq> [])"

definition js_or :: "string option \<Rightarrow> string option \<Rightarrow> string option" where
  "js_or a b = (if truthy a then a else b)"

text \<open>\<open>Array.prototype.findIndex\<close>: the index of the first element that satisfies the
  predicate, \<open>-1\<close> when there is none.\<close>

fun findIndex :: "('a \<Rightarrow> bool) \<Rightarrow> 'a list \<Rightarrow> int" where
  "findIndex P [] = - 1"
| "findIndex P (x # xs) =
     (if P x then 0 else (let k = findIndex P xs in if k < 0 then - 1 else k + 1))"

section \<open>Configuration\<close>

text \<open>
  An entry of \<open>config.entities\<close> is a bare entity id or an object \<open>{entity: id, name?}\<close>
  (\<open>getAllEvents\<close> reads both forms). \<open>entity_prop d\<close> is the property read
  \<open>d.entity\<close>: a string has no such property, so the read gives \<open>undefined\<close>.
\<close>

datatype entity_desc = EntityId string | EntityObj string "string option"

fun entity_prop :: "entity_desc \<Rightarrow> string option" where
  "entity_prop (EntityId s) = None"
| "entity_prop (EntityObj i n) = Some i"

text \<open>The table of \<open>defaults.js\<close>, field by field.\<close>

record card_defaults =
  title :: string
  numberOfDays :: int
  timeFormat :: string
  dateTopFormat :: string
  dateBottomFormat :: string
  hideTime :: bool
  progressBar :: bool
  showLocation :: bool
  showLocationIcon :: bool
  startFromToday :: bool
  hidePastEvents :: bool
  showMultiDay :: bool
  eventsLimit :: int
  showEventOrigin :: bool
  hideHeader :: bool
  highlightToday :: bool
  ignoreEventsExpression :: string
  ignoreEventsByLocationExpression :: string

definition defaults :: card_defaults where
  "defaults =
     \<lparr> title = ''Calendar'',
       numberOfDays = 7,
       timeFormat = ''HH:mma'',
       dateTopFormat = ''DD'',
       dateBottomFormat = ''ddd'',
       hideTime = False,
       progressBar = False,
       showLocation = False,
       showLocationIcon = True,
       startFromToday = False,
       hidePastEvents = False,
       showMultiDay = False,
       eventsLimit = 99,
       showEventOrigin = False,
       hideHeader = False,
       highlightToday = False,
       ignoreEventsExpression = [],
       ignoreEventsByLocationExpression = [] \<rparr>"

text \<open>The configuration a run works with: the fields of the table and the entities.\<close>

record config = card_defaults +
  entities :: "entity_desc list"

section \<open>Raw events and the store\<close>

text \<open>
  A raw event is a mutable object. The fields the pipeline itself reads or writes are
  named; everything else the source sent (start, end, summary, location, ...) is the
  payload, which only the getters of \<open>CalendarEvent\<close> read. \<open>originCalendar\<close> has three
  states: no such property (\<open>None\<close>), a property holding \<open>undefined\<close> (\<open>Some None\<close>),
  a property holding a descriptor.
\<close>

record 'p rawEvent =
  id' :: "string option"
  uid :: "string option"
  entity :: "entity_desc option"
  originCalendar :: "entity_desc option option"
  addDays :: "int option"
  daysLong :: "int option"
  payload :: 'p

text \<open>Objects live in a store; an array of raw events is a list of references.\<close>

type_synonym ref = nat
type_synonym 'p store = "ref \<Rightarrow> 'p rawEvent"

section \<open>The uniqueness filter\<close>

text \<open>
  \<open>self.filter((event, index, self) => index === self.findIndex(e => f(e) === g(event)))\<close>
  for two key readings \<open>f\<close> and \<open>g\<close>.
\<close>

definition filterFirstIndex :: "('a \<Rightarrow> 'k) \<Rightarrow> ('a \<Rightarrow> 'k) \<Rightarrow> 'a list \<Rightarrow> 'a list" where
  "filterFirstIndex f g self =
     map fst (filter (\<lambda>(event, index). int index = findIndex (\<lambda>e. f e = g event) self)
                (zip self [0 ..< length self]))"

text \<open>The two readings of the source: \<open>e.id || e.uid\<close> for the element searched,
  \<open>event.uid || event.id\<close> for the event filtered.\<close>

definition searchedKey :: "'p store \<Rightarrow> ref \<Rightarrow> string option" where
  "searchedKey h e = js_or (id' (h e)) (uid (h e))"

definition eventKey :: "'p store \<Rightarrow> ref \<Rightarrow> string option" where
  "eventKey h event = js_or (uid (h event)) (id' (h event))"

definition uniqueEvents :: "'p store \<Rightarrow> ref list \<Rightarrow> ref list" where
  "uniqueEvents h allEvents = filterFirstIndex (searchedKey h) (eventKey h) allEvents"

text \<open>The same filter as a recursion that carries the searched keys seen so far; the
  proofs go through it.\<close>

fun keepFresh :: "('a \<Rightarrow> 'k) \<Rightarrow> ('a \<Rightarrow> 'k) \<Rightarrow> 'k set \<Rightarrow> 'a list \<Rightarrow> 'a list" where
  "keepFresh f g S [] = []"
| "keepFresh f g S (x # xs) =
     (if g x \<notin> S \<and> f x = g x then x # keepFresh f g (insert (f x) S) xs
      else keepFresh f g (insert (f x) S) xs)"


section \<open>Instants\<close>

text \<open>
  The date library (moment) is a dependency of the repository. An instant is modelled as
  the number of milliseconds of local wall-clock time since the epoch, in a zone whose
  offset does not change, so a day is always \<open>msPerDay\<close> long. \<open>diffDays a b\<close> is
  \<open>a.diff(b, 'days')\<close>, which drops the fraction towards zero. \<open>formatDay\<close> stands for
  \<open>format('YYYY-MM-DD')\<close>: it names the civil day, here by its number.
\<close>

definition msPerDay :: int where
  "msPerDay = 86400000"

definition startOfDay :: "int \<Rightarrow> int" where
  "startOfDay t = t - t mod msPerDay"

definition add_days :: "int \<Rightarrow> int \<Rightarrow> int" where
  "add_days t n = t + n * msPerDay"

definition diffDays :: "int \<Rightarrow> int \<Rightarrow> int" where
  "diffDays a b = (if b \<le> a then (a - b) div msPerDay else - ((b - a) div msPerDay))"

definition hour :: "int \<Rightarrow> int" where
  "hour t = (t mod msPerDay) div 3600000"

definition minutes :: "int \<Rightarrow> int" where
  "minutes t = (t mod 3600000) div 60000"

definition isBefore :: "int \<Rightarrow> int \<Rightarrow> bool" where
  "isBefore a b = (a < b)"

definition isAfter :: "int \<Rightarrow> int \<Rightarrow> bool" where
  "isAfter a b = (b < a)"

definition formatDay :: "int \<Rightarrow> int" where
  "formatDay t = t div msPerDay"

section \<open>The host and the class CalendarEvent\<close>

text \<open>
  What a run takes from outside the two source files: the clock (\<open>moment()\<close>; one run
  reads one instant), the regular expression engine (\<open>regexTest p s\<close> is
  \<open>new RegExp(p, 'i').test(s)\<close>, \<open>None\<close> when the constructor throws on an invalid
  pattern), and the getters of the class \<open>CalendarEvent\<close>, whose file
  (\<open>./calendar-event\<close>) is not among the sources.
\<close>

record 'p host =
  now :: int
  regexTest :: "string \<Rightarrow> string \<Rightarrow> bool option"
  getStartDateTime :: "'p rawEvent \<Rightarrow> int"
  getEndDateTime :: "'p rawEvent \<Rightarrow> int"
  getIsMultiDay :: "'p rawEvent \<Rightarrow> bool"
  getTitle :: "'p rawEvent \<Rightarrow> string option"
  getLocation :: "'p rawEvent \<Rightarrow> string option"

record 'p calendarEvent =
  rawEvent :: "'p rawEvent"
  startDateTime :: int
  endDateTime :: int
  isMultiDay :: bool
  title_ev :: "string option"
  location :: "string option"

text \<open>
  \<open>new CalendarEvent(raw)\<close>: the object keeps the record it was built from
  (\<open>processEvents\<close> reads it back as \<open>newEvent.rawEvent\<close>); its other properties are what
  the getters make of that record. The record is not written again after the object is
  built, so the properties are taken at construction.
\<close>

definition CalendarEvent :: "'p host \<Rightarrow> 'p rawEvent \<Rightarrow> 'p calendarEvent" where
  "CalendarEvent H raw =
     \<lparr> rawEvent = raw,
       startDateTime = getStartDateTime H raw,
       endDateTime = getEndDateTime H raw,
       isMultiDay = getIsMultiDay H raw,
       title_ev = getTitle H raw,
       location = getLocation H raw \<rparr>"

section \<open>processEvents\<close>

datatype error = TypeError | SyntaxError

text \<open>
  \<open>config.entities.find(entity => entity.entity === caldavEvent.entity.entity)\<close>.
  The callback runs only when there is an entity to test; it throws a TypeError when
  the event has no \<open>entity\<close> to read \<open>.entity\<close> from.
\<close>

definition findOrigin :: "config \<Rightarrow> 'p rawEvent \<Rightarrow> error + entity_desc option" where
  "findOrigin cfg caldavEvent =
     (case entities cfg of
        [] \<Rightarrow> Inr None
      | _ # _ \<Rightarrow>
          (case entity caldavEvent of
             None \<Rightarrow> Inl TypeError
           | Some src \<Rightarrow> Inr (find (\<lambda>d. entity_prop d = entity_prop src) (entities cfg))))"

text \<open>One ignore expression against one text: nothing is built or tested when the
  pattern or the text is empty or missing.\<close>

definition matchesIgnore :: "'p host \<Rightarrow> string \<Rightarrow> string option \<Rightarrow> error + bool" where
  "matchesIgnore H pattern txt =
     (case txt of
        None \<Rightarrow> Inr False
      | Some s \<Rightarrow>
          if pattern \<noteq> [] \<and> s \<noteq> [] then
            (case regexTest H pattern s of None \<Rightarrow> Inl SyntaxError | Some b \<Rightarrow> Inr b)
          else Inr False)"

text \<open>\<open>JSON.parse(JSON.stringify(raw))\<close>: a fresh record with the same content, but for
  a property that holds \<open>undefined\<close>, which JSON drops.\<close>

definition jsonCopy :: "'p rawEvent \<Rightarrow> 'p rawEvent" where
  "jsonCopy raw =
     raw\<lparr>originCalendar := (case originCalendar raw of Some None \<Rightarrow> None | oc \<Rightarrow> oc)\<rparr>"

text \<open>The number of days of a multi-day event (lines 165 to 169).\<close>

definition countDays :: "'p calendarEvent \<Rightarrow> int" where
  "countDays newEvent =
     (let n = diffDays (endDateTime newEvent) (startDateTime newEvent) + 1
      in if hour (endDateTime newEvent) = 0 \<and> minutes (endDateTime newEvent) = 0
         then n - 1 else n)"

text \<open>The loop of lines 171 to 183, from counter \<open>i\<close> with the occurrences pushed so far.\<close>

function partialEventsLoop ::
  "'p host \<Rightarrow> int \<Rightarrow> 'p rawEvent \<Rightarrow> int \<Rightarrow> int \<Rightarrow> 'p calendarEvent list \<Rightarrow> 'p calendarEvent list"
where
  "partialEventsLoop H endDate raw n i partialEvents =
     (if i < n then
        (let copiedEvent = (jsonCopy raw)\<lparr>addDays := Some i, daysLong := Some n\<rparr>;
             partialEvent = CalendarEvent H copiedEvent
         in partialEventsLoop H endDate raw n (i + 1)
              (if isAfter endDate (startDateTime partialEvent)
               then partialEvents @ [partialEvent] else partialEvents))
      else partialEvents)"
  by pat_completeness auto
termination
  by (relation "measure (\<lambda>(H, endDate, raw, n, i, partialEvents). nat (n - i))") auto

declare partialEventsLoop.simps [simp del]

definition expandMultiDay :: "config \<Rightarrow> 'p host \<Rightarrow> 'p calendarEvent \<Rightarrow> 'p calendarEvent list" where
  "expandMultiDay cfg H newEvent =
     (let today = startOfDay (now H);
          endDate = add_days today (numberOfDays cfg)
      in partialEventsLoop H endDate (rawEvent newEvent) (countDays newEvent) 0 [])"

text \<open>
  The callback of the \<open>reduce\<close> of lines 124 to 192 on the raw event at reference \<open>r\<close>:
  the store after the write of \<open>originCalendar\<close>, and the events accumulated or the
  exception thrown.
\<close>

definition convertEvent ::
  "config \<Rightarrow> 'p host \<Rightarrow> 'p store \<Rightarrow> 'p calendarEvent list \<Rightarrow> ref
     \<Rightarrow> 'p store \<times> (error + 'p calendarEvent list)"
where
  "convertEvent cfg H h evs r =
     (case findOrigin cfg (h r) of
        Inl err \<Rightarrow> (h, Inl err)
      | Inr oc \<Rightarrow>
          (let h' = h(r := (h r)\<lparr>originCalendar := Some oc\<rparr>);
               newEvent = CalendarEvent H (h' r);
               today = startOfDay (now H)
           in if hidePastEvents cfg \<and> isBefore (endDateTime newEvent) (now H) then (h', Inr evs)
              else if startFromToday cfg \<and> isAfter today (endDateTime newEvent) then (h', Inr evs)
              else if hidePastEvents cfg \<and> isBefore (endDateTime newEvent) (now H) then (h', Inr evs)
              else
                (case matchesIgnore H (ignoreEventsExpression cfg) (title_ev newEvent) of
                   Inl err \<Rightarrow> (h', Inl err)
                 | Inr True \<Rightarrow> (h', Inr evs)
                 | Inr False \<Rightarrow>
                     (case matchesIgnore H (ignoreEventsByLocationExpression cfg)
                             (location newEvent) of
                        Inl err \<Rightarrow> (h', Inl err)
                      | Inr True \<Rightarrow> (h', Inr evs)
                      | Inr False \<Rightarrow>
                          if showMultiDay cfg \<and> isMultiDay newEvent
                          then (h', Inr (evs @ expandMultiDay cfg H newEvent))
                          else (h', Inr (evs @ [newEvent]))))))"

fun reduceEvents ::
  "config \<Rightarrow> 'p host \<Rightarrow> 'p store \<Rightarrow> 'p calendarEvent list \<Rightarrow> ref list
     \<Rightarrow> 'p store \<times> (error + 'p calendarEvent list)"
where
  "reduceEvents cfg H h evs [] = (h, Inr evs)"
| "reduceEvents cfg H h evs (r # rs) =
     (case convertEvent cfg H h evs r of
        (h', Inl err) \<Rightarrow> (h', Inl err)
      | (h', Inr evs') \<Rightarrow> reduceEvents cfg H h' evs' rs)"

text \<open>The comparator of line 195.\<close>

definition compareStart :: "'p calendarEvent \<Rightarrow> 'p calendarEvent \<Rightarrow> int" where
  "compareStart a b = (if isBefore (startDateTime a) (startDateTime b) then - 1 else 1)"

text \<open>
  \<open>Array.prototype.sort(comparefn)\<close>. The comparator above never answers 0, so it is
  not a consistent comparator in the sense of ECMAScript, which then leaves the order
  to the engine. What a comparison sort delivers from the answers it gets is a
  reordering in which no element stands after one it is answered to precede; which of
  two elements the comparator does not separate comes first is the engine's choice (an
  insertion sort that shifts while \<open>comparefn(previous, item) > 0\<close> moves the later one
  to the front, one that inserts behind the last element with
  \<open>comparefn(item, element) >= 0\<close> leaves them in place). \<open>hostSort cmp xs ys\<close> holds
  when the engine may turn \<open>xs\<close> into \<open>ys\<close>.
\<close>

definition hostSort :: "('a \<Rightarrow> 'a \<Rightarrow> int) \<Rightarrow> 'a list \<Rightarrow> 'a list \<Rightarrow> bool" where
  "hostSort cmp xs ys \<longleftrightarrow> mset ys = mset xs \<and> sorted_wrt (\<lambda>a b. \<not> cmp b a < 0) ys"

text \<open>
  \<open>processEvents cfg H h allEvents out\<close>: the call may end with \<open>out\<close>, the store it
  leaves and the array it returns or the exception it throws.
\<close>

definition processEvents ::
  "config \<Rightarrow> 'p host \<Rightarrow> 'p store \<Rightarrow> ref list
     \<Rightarrow> 'p store \<times> (error + 'p calendarEvent list) \<Rightarrow> bool"
where
  "processEvents cfg H h allEvents out =
     (case reduceEvents cfg H h [] (uniqueEvents h allEvents) of
        (h', Inl err) \<Rightarrow> out = (h', Inl err)
      | (h', Inr newEvents) \<Rightarrow>
          fst out = h' \<and>
          (case snd out of
             Inl err \<Rightarrow> False
           | Inr sortedEvents \<Rightarrow> hostSort compareStart newEvents sortedEvents))"

section \<open>groupEventsByDay\<close>

record 'p dayGroup =
  day :: int
  events :: "'p calendarEvent list"

text \<open>The callback of the \<open>reduce\<close> of lines 13 to 24.\<close>

definition groupStep :: "'p dayGroup list \<Rightarrow> 'p calendarEvent \<Rightarrow> 'p dayGroup list" where
  "groupStep groupedEvents event =
     (let d = formatDay (startDateTime event);
          matchingDateIndex = findIndex (\<lambda>grp. day grp = d) groupedEvents
      in if matchingDateIndex > - 1 then
           groupedEvents[nat matchingDateIndex :=
             (groupedEvents ! nat matchingDateIndex)
               \<lparr>events := events (groupedEvents ! nat matchingDateIndex) @ [event]\<rparr>]
         else groupedEvents @ [\<lparr>day = d, events = [event]\<rparr>])"

text \<open>The \<open>map\<close> of lines 31 to 41 with its two counters; a dropped day is \<open>None\<close>.\<close>

fun limitDays :: "int \<Rightarrow> int \<Rightarrow> bool \<Rightarrow> 'p dayGroup list \<Rightarrow> 'p dayGroup option list" where
  "limitDays lim numberOfEvents hasMaxedOutEvents [] = []"
| "limitDays lim numberOfEvents hasMaxedOutEvents (grp # grps) =
     (if hasMaxedOutEvents then None # limitDays lim numberOfEvents hasMaxedOutEvents grps
      else (let n = numberOfEvents + int (length (events grp))
            in Some grp # limitDays lim n (lim < n) grps))"

text \<open>The grouping of lines 13 to 24: the events folded into the day groups.\<close>

definition groupedEvents :: "'p calendarEvent list \<Rightarrow> 'p dayGroup list" where
  "groupedEvents evs = foldl groupStep [] evs"

definition groupEventsByDay :: "'p calendarEvent list \<Rightarrow> config \<Rightarrow> 'p dayGroup list" where
  "groupEventsByDay evs cfg =
     map the (filter (\<lambda>g. g \<noteq> None) (limitDays (eventsLimit cfg) 0 False (groupedEvents evs)))"

text \<open>The number of events of a list of day groups (the cumulative count of the limit).\<close>

definition countEvents :: "'p dayGroup list \<Rightarrow> int" where
  "countEvents gs = sum_list (map (\<lambda>g. int (length (events g))) gs)"

section \<open>A sort a host may run\<close>

text \<open>
  The insertion sort that takes the items from left to right and moves each one towards
  the front while \<open>comparefn(previous, item) > 0\<close>. The sorted part is held from its
  last element to its first.
\<close>

fun shiftIn :: "('a \<Rightarrow> 'a \<Rightarrow> int) \<Rightarrow> 'a \<Rightarrow> 'a list \<Rightarrow> 'a list" where
  "shiftIn cmp item [] = [item]"
| "shiftIn cmp item (previous # before) =
     (if cmp previous item > 0 then previous # shiftIn cmp item before
      else item # previous # before)"

definition insertionSort :: "('a \<Rightarrow> 'a \<Rightarrow> int) \<Rightarrow> 'a list \<Rightarrow> 'a list" where
  "insertionSort cmp xs = rev (foldl (\<lambda>sortedPart item. shiftIn cmp item sortedPart) [] xs)"


section \<open>A host and sample data for the examples\<close>

text \<open>What a calendar source sends for an event, as far as the examples need it.\<close>

record fields =
  start_ms :: int
  end_ms :: int
  summary :: "string option"
  place :: "string option"

definition shiftDays :: "fields rawEvent \<Rightarrow> int" where
  "shiftDays raw = (case addDays raw of None \<Rightarrow> 0 | Some k \<Rightarrow> k * msPerDay)"

text \<open>
  Modelled from the spec: the getters of the class \<open>CalendarEvent\<close>
  (\<open>./calendar-event\<close> is not among the sources). Start and end are the instants of the
  record, shifted by \<open>addDays\<close> days on an occurrence of an expansion; \<open>isMultiDay\<close> says
  that the end date is not the start date. The expression engine of this host finds a
  match when the text is the pattern.
\<close>

definition specHost :: "int \<Rightarrow> fields host" where
  "specHost t =
     \<lparr> now = t,
       regexTest = (\<lambda>pattern s. Some (pattern = s)),
       getStartDateTime = (\<lambda>raw. start_ms (payload raw) + shiftDays raw),
       getEndDateTime = (\<lambda>raw. end_ms (payload raw) + shiftDays raw),
       getIsMultiDay = (\<lambda>raw. formatDay (start_ms (payload raw) + shiftDays raw)
                              \<noteq> formatDay (end_ms (payload raw) + shiftDays raw)),
       getTitle = (\<lambda>raw. summary (payload raw)),
       getLocation = (\<lambda>raw. place (payload raw)) \<rparr>"

text \<open>A raw event as \<open>getAllEvents\<close> hands it over: the source's record with the
  configured entity it came from.\<close>

definition fetched ::
  "string option \<Rightarrow> string option \<Rightarrow> entity_desc \<Rightarrow> int \<Rightarrow> int \<Rightarrow> string \<Rightarrow> fields rawEvent"
where
  "fetched i u src s e name =
     \<lparr> id' = i, uid = u, entity = Some src, originCalendar = None, addDays = None,
       daysLong = None,
       payload = \<lparr> start_ms = s, end_ms = e, summary = Some name, place = None \<rparr> \<rparr>"

definition emptyStore :: "fields store" where
  "emptyStore = (\<lambda>r. fetched None None (EntityId []) 0 0 [])"

text \<open>The defaults of the table with the given entities.\<close>

definition defaultConfig :: "entity_desc list \<Rightarrow> config" where
  "defaultConfig es = card_defaults.extend defaults (config.fields es)"

definition hoursMs :: "int \<Rightarrow> int" where
  "hoursMs n = n * 3600000"

definition atDay :: "int \<Rightarrow> int \<Rightarrow> int" where
  "atDay d h = d * msPerDay + hoursMs h"

text \<open>An event object as \<open>processEvents\<close> builds it from a fetched record.\<close>

definition sampleEvent :: "string \<Rightarrow> int \<Rightarrow> int \<Rightarrow> fields calendarEvent" where
  "sampleEvent name s e =
     CalendarEvent (specHost 0) (fetched (Some name) None (EntityId ''calendar.home'') s e name)"

text \<open>
  A sample run: two configured calendars, a meeting of one hour and an all-day event of
  three days, read at 08:00 of day 0 with a window of two days and the expansion on.
\<close>

definition calWork :: entity_desc where
  "calWork = EntityObj ''calendar.work'' (Some ''Work'')"

definition calHome :: entity_desc where
  "calHome = EntityObj ''calendar.home'' None"

definition sampleConfig :: config where
  "sampleConfig = (defaultConfig [calWork, calHome])\<lparr>showMultiDay := True, numberOfDays := 2\<rparr>"

definition sampleHost :: "fields host" where
  "sampleHost = specHost (atDay 0 8)"

definition sampleStore :: "fields store" where
  "sampleStore =
     emptyStore
       (0 := fetched (Some ''g1'') None calWork (atDay 0 9) (atDay 0 10) ''Standup'',
        1 := fetched None (Some ''u2'') calHome (atDay 0 0) (atDay 3 0) ''Trip'')"

definition sampleStoreAfter :: "fields store" where
  "sampleStoreAfter =
     emptyStore
       (0 := (fetched (Some ''g1'') None calWork (atDay 0 9) (atDay 0 10) ''Standup'')
               \<lparr>originCalendar := Some (Some calWork)\<rparr>,
        1 := (fetched None (Some ''u2'') calHome (atDay 0 0) (atDay 3 0) ''Trip'')
               \<lparr>originCalendar := Some (Some calHome)\<rparr>)"

definition sampleStandup :: "fields calendarEvent" where
  "sampleStandup = CalendarEvent sampleHost (sampleStoreAfter 0)"

definition sampleTripDay :: "int \<Rightarrow> fields calendarEvent" where
  "sampleTripDay k =
     CalendarEvent sampleHost
       ((jsonCopy (sampleStoreAfter 1))\<lparr>addDays := Some k, daysLong := Some 3\<rparr>)"

text \<open>A second run: two meetings of one calendar that start at the same instant.\<close>

definition tieStore :: "fields store" where
  "tieStore =
     emptyStore
       (0 := fetched (Some ''g1'') None calWork (atDay 0 9) (atDay 0 10) ''Standup'',
        1 := fetched (Some ''g2'') None calWork (atDay 0 9) (atDay 0 11) ''Review'')"

definition tieStoreAfter :: "fields store" where
  "tieStoreAfter =
     emptyStore
       (0 := (fetched (Some ''g1'') None calWork (atDay 0 9) (atDay 0 10) ''Standup'')
               \<lparr>originCalendar := Some (Some calWork)\<rparr>,
        1 := (fetched (Some ''g2'') None calWork (atDay 0 9) (atDay 0 11) ''Review'')
               \<lparr>originCalendar := Some (Some calWork)\<rparr>)"

definition tieStandup :: "fields calendarEvent" where
  "tieStandup = CalendarEvent sampleHost (tieStoreAfter 0)"

definition tieReview :: "fields calendarEvent" where
  "tieReview = CalendarEvent sampleHost (tieStoreAfter 1)"


section \<open>Unfolding the sample data\<close>

lemmas sample_defs =
  sampleEvent_def CalendarEvent_def specHost_def fetched_def shiftDays_def hoursMs_def
  atDay_def msPerDay_def formatDay_def defaultConfig_def defaults_def card_defaults.defs
  config.defs

lemmas sample_run_defs =
  sampleConfig_def sampleHost_def sampleStore_def sampleStoreAfter_def sampleStandup_def
  sampleTripDay_def calWork_def calHome_def emptyStore_def
  tieStore_def tieStoreAfter_def tieStandup_def tieReview_def

section \<open>Properties of the uniqueness filter\<close>

lemma findIndex_bounds: "- 1 \<le> findIndex P xs \<and> findIndex P xs < int (length xs)"
  by (induction xs) (auto simp: Let_def)

lemma findIndex_none: "findIndex P xs < 0 \<longleftrightarrow> (\<forall>x \<in> set xs. \<not> P x)"
  using findIndex_bounds [of P] by (induction xs) (auto simp: Let_def)

lemma findIndex_append_hit:
  "findIndex P (pre @ x # xs) = int (length pre) \<longleftrightarrow> (\<forall>y \<in> set pre. \<not> P y) \<and> P x"
proof (induction pre)
  case Nil
  have "findIndex P xs + 1 \<noteq> 0 \<or> findIndex P xs < 0"
    using findIndex_bounds [of P xs] by linarith
  then show ?case by (auto simp: Let_def)
next
  case (Cons a pre)
  have nonneg: "findIndex P (pre @ x # xs) \<noteq> - 1 \<Longrightarrow> 0 \<le> findIndex P (pre @ x # xs)"
    using findIndex_bounds [of P "pre @ x # xs"] by linarith
  show ?case
    using Cons.IH nonneg by (auto simp: Let_def)
qed

lemma filterFirstIndex_from:
  "map fst (filter (\<lambda>(event, index). int index = findIndex (\<lambda>e. f e = g event) (pre @ xs))
              (zip xs [length pre ..< length pre + length xs]))
   = keepFresh f g (f ` set pre) xs"
proof (induction xs arbitrary: pre)
  case Nil
  then show ?case by simp
next
  case (Cons x xs)
  have range: "[length pre ..< length pre + length (x # xs)]
                 = length pre # [length (pre @ [x]) ..< length (pre @ [x]) + length xs]"
    by (subst upt_rec) simp
  have hit: "int (length pre) = findIndex (\<lambda>e. f e = g x) (pre @ x # xs)
               \<longleftrightarrow> g x \<notin> f ` set pre \<and> f x = g x"
    using findIndex_append_hit [of "\<lambda>e. f e = g x" pre x xs]
    by (auto simp: image_iff)
  have tail: "map fst (filter (\<lambda>(event, index).
                  int index = findIndex (\<lambda>e. f e = g event) (pre @ x # xs))
                (zip xs [length (pre @ [x]) ..< length (pre @ [x]) + length xs]))
              = keepFresh f g (insert (f x) (f ` set pre)) xs"
    using Cons.IH [of "pre @ [x]"] by simp
  show ?case
    unfolding range using hit tail by simp
qed

lemma filterFirstIndex_keepFresh: "filterFirstIndex f g xs = keepFresh f g {} xs"
  using filterFirstIndex_from [of f g "[]" xs] by (simp add: filterFirstIndex_def)

lemma keepFresh_length: "length (keepFresh f g S xs) \<le> length xs"
  by (induction xs arbitrary: S) (auto simp: le_SucI)

lemma keepFresh_member:
  "x \<in> set (keepFresh f g S xs) \<Longrightarrow> x \<in> set xs \<and> f x = g x \<and> g x \<notin> S"
  by (induction xs arbitrary: S) (auto split: if_splits)

lemma keepFresh_distinct: "distinct (map g (keepFresh f g S xs))"
proof (induction xs arbitrary: S)
  case Nil
  then show ?case by simp
next
  case (Cons x xs)
  have "f x \<notin> g ` set (keepFresh f g (insert (f x) S) xs)"
  proof
    assume "f x \<in> g ` set (keepFresh f g (insert (f x) S) xs)"
    then obtain y where y: "y \<in> set (keepFresh f g (insert (f x) S) xs)" "f x = g y"
      by blast
    from keepFresh_member [OF y(1)] have "g y \<notin> insert (f x) S" by blast
    with y(2) show False by simp
  qed
  then show ?case using Cons.IH [of "insert (f x) S"] by auto
qed

lemma keepFresh_fixed:
  "\<forall>x \<in> set ys. f x = g x \<and> g x \<notin> S \<Longrightarrow> distinct (map g ys) \<Longrightarrow> keepFresh f g S ys = ys"
proof (induction ys arbitrary: S)
  case Nil
  then show ?case by simp
next
  case (Cons y ys)
  have head: "f y = g y" "g y \<notin> S" "g y \<notin> g ` set ys" "distinct (map g ys)"
    using Cons.prems by simp_all
  have "\<forall>x \<in> set ys. f x = g x \<and> g x \<notin> insert (f y) S"
    using Cons.prems(1) head by (metis image_eqI insert_iff list.set_intros(2))
  then have "keepFresh f g (insert (f y) S) ys = ys"
    using Cons.IH head(4) by blast
  then show ?case using head by simp
qed

lemma keepFresh_idem: "keepFresh f g {} (keepFresh f g {} xs) = keepFresh f g {} xs"
proof (rule keepFresh_fixed)
  show "\<forall>x \<in> set (keepFresh f g {} xs). f x = g x \<and> g x \<notin> {}"
    using keepFresh_member [of _ f g "{}" xs] by blast
  show "distinct (map g (keepFresh f g {} xs))"
    by (rule keepFresh_distinct)
qed

text \<open>Where the two readings of the key agree on every event of the input, the filter
  keeps an event exactly when no earlier event has its key.\<close>

lemma keepFresh_agreeing:
  "\<forall>x \<in> set xs. f x = g x \<Longrightarrow> keepFresh f g S xs = keepFresh g g S xs"
  by (induction xs arbitrary: S) simp_all

lemma uniqueEvents_agreeing_readings:
  assumes "\<forall>r \<in> set allEvents. searchedKey h r = eventKey h r"
  shows "uniqueEvents h allEvents = keepFresh (eventKey h) (eventKey h) {} allEvents"
  using keepFresh_agreeing [OF assms]
  by (simp add: uniqueEvents_def filterFirstIndex_keepFresh)

section \<open>Properties of the grouping\<close>

lemma findIndex_hit:
  "0 \<le> findIndex P xs \<Longrightarrow> nat (findIndex P xs) < length xs \<and> P (xs ! nat (findIndex P xs))"
proof (induction xs)
  case Nil
  then show ?case by simp
next
  case (Cons x xs)
  show ?case
  proof (cases "P x")
    case True
    then show ?thesis by simp
  next
    case False
    with Cons.prems have k: "0 \<le> findIndex P xs"
      by (auto simp: Let_def split: if_splits)
    then have "nat (findIndex P xs + 1) = Suc (nat (findIndex P xs))" by simp
    with False k Cons.IH show ?thesis by (simp add: Let_def)
  qed
qed

lemma update_found:
  "distinct (map key gs) \<Longrightarrow> d \<in> key ` set gs \<Longrightarrow>
   gs[nat (findIndex (\<lambda>g. key g = d) gs) := u (gs ! nat (findIndex (\<lambda>g. key g = d) gs))]
     = map (\<lambda>g. if key g = d then u g else g) gs"
proof (induction gs)
  case Nil
  then show ?case by simp
next
  case (Cons g gs)
  show ?case
  proof (cases "key g = d")
    case True
    then have "\<forall>g' \<in> set gs. key g' \<noteq> d" using Cons.prems(1) by (auto simp: image_iff)
    then have "map (\<lambda>g. if key g = d then u g else g) gs = gs"
      by (simp add: map_idI)
    with True show ?thesis by simp
  next
    case False
    with Cons.prems have mem: "d \<in> key ` set gs" by auto
    then have "\<not> findIndex (\<lambda>g. key g = d) gs < 0"
      by (auto simp: findIndex_none)
    then have k: "0 \<le> findIndex (\<lambda>g. key g = d) gs" by simp
    then have "nat (findIndex (\<lambda>g. key g = d) gs + 1) = Suc (nat (findIndex (\<lambda>g. key g = d) gs))"
      by simp
    with False k Cons.IH [OF _ mem] Cons.prems(1) show ?thesis by (simp add: Let_def)
  qed
qed

lemma groupStep_alt:
  assumes "distinct (map day gs)"
  shows "groupStep gs x =
     (if formatDay (startDateTime x) \<in> day ` set gs
      then map (\<lambda>g. if day g = formatDay (startDateTime x) then g\<lparr>events := events g @ [x]\<rparr> else g) gs
      else gs @ [\<lparr>day = formatDay (startDateTime x), events = [x]\<rparr>])"
proof (cases "formatDay (startDateTime x) \<in> day ` set gs")
  case True
  then have "\<not> findIndex (\<lambda>g. day g = formatDay (startDateTime x)) gs < 0"
    by (auto simp: findIndex_none)
  then have "- 1 < findIndex (\<lambda>g. day g = formatDay (startDateTime x)) gs" by simp
  then show ?thesis
    using True update_found [OF assms True, of "\<lambda>g. g\<lparr>events := events g @ [x]\<rparr>"]
    by (simp add: groupStep_def Let_def)
next
  case False
  then have "findIndex (\<lambda>g. day g = formatDay (startDateTime x)) gs < 0"
    by (auto simp: findIndex_none image_iff)
  then show ?thesis using False by (simp add: groupStep_def Let_def)
qed

lemma groupedEvents_snoc: "groupedEvents (xs @ [x]) = groupStep (groupedEvents xs) x"
  by (simp add: groupedEvents_def)

lemma groupedEvents_inv:
  "distinct (map day (groupedEvents evs))
   \<and> day ` set (groupedEvents evs) = (\<lambda>e. formatDay (startDateTime e)) ` set evs
   \<and> (\<forall>g \<in> set (groupedEvents evs).
         events g = filter (\<lambda>e. formatDay (startDateTime e) = day g) evs)"
proof (induction evs rule: rev_induct)
  case Nil
  then show ?case by (simp add: groupedEvents_def)
next
  case (snoc x xs)
  let ?gs = "groupedEvents xs"
  let ?d = "formatDay (startDateTime x)"
  let ?upd = "\<lambda>g. if day g = ?d then g\<lparr>events := events g @ [x]\<rparr> else g"
  from snoc have dist: "distinct (map day ?gs)"
    and days: "day ` set ?gs = (\<lambda>e. formatDay (startDateTime e)) ` set xs"
    and full: "\<forall>g \<in> set ?gs. events g = filter (\<lambda>e. formatDay (startDateTime e) = day g) xs"
    by simp_all
  show ?case
  proof (cases "?d \<in> day ` set ?gs")
    case True
    then have new: "groupedEvents (xs @ [x]) = map ?upd ?gs"
      using groupStep_alt [OF dist, of x] by (simp add: groupedEvents_snoc)
    have same_day: "map day (map ?upd ?gs) = map day ?gs"
      by (simp add: comp_def)
    have a: "distinct (map day (map ?upd ?gs))"
      unfolding same_day by (rule dist)
    have "day ` set (map ?upd ?gs) = day ` set ?gs"
      using same_day by (metis list.set_map)
    then have b: "day ` set (map ?upd ?gs) = (\<lambda>e. formatDay (startDateTime e)) ` set (xs @ [x])"
      using days True by auto
    have c: "\<forall>g \<in> set (map ?upd ?gs).
               events g = filter (\<lambda>e. formatDay (startDateTime e) = day g) (xs @ [x])"
      using full by auto
    show ?thesis unfolding new using a b c by blast
  next
    case False
    then have new: "groupedEvents (xs @ [x]) = ?gs @ [\<lparr>day = ?d, events = [x]\<rparr>]"
      using groupStep_alt [OF dist, of x] by (simp add: groupedEvents_snoc)
    have none: "filter (\<lambda>e. formatDay (startDateTime e) = ?d) xs = []"
      using False days by (auto simp: filter_empty_conv image_iff)
    have other: "\<forall>g \<in> set ?gs. day g \<noteq> ?d"
      using False by (auto simp: image_iff)
    have a: "distinct (map day (?gs @ [\<lparr>day = ?d, events = [x]\<rparr>]))"
      using dist False by simp
    have b: "day ` set (?gs @ [\<lparr>day = ?d, events = [x]\<rparr>])
               = (\<lambda>e. formatDay (startDateTime e)) ` set (xs @ [x])"
      using days by auto
    have c: "\<forall>g \<in> set (?gs @ [\<lparr>day = ?d, events = [x]\<rparr>]).
               events g = filter (\<lambda>e. formatDay (startDateTime e) = day g) (xs @ [x])"
      using full other none by auto
    show ?thesis unfolding new using a b c by blast
  qed
qed

lemma limitDays_maxed: "map the (filter (\<lambda>g. g \<noteq> None) (limitDays lim n True gs)) = []"
  by (induction gs) auto

lemma countEvents_Cons: "countEvents (g # gs) = int (length (events g)) + countEvents gs"
  by (simp add: countEvents_def)

lemma limitDays_prefix:
  "\<exists>k \<le> length gs.
     map the (filter (\<lambda>g. g \<noteq> None) (limitDays lim n False gs)) = take k gs
     \<and> (gs \<noteq> [] \<longrightarrow> 0 < k)
     \<and> (\<forall>j. 0 < j \<and> j < k \<longrightarrow> n + countEvents (take j gs) \<le> lim)
     \<and> (k < length gs \<longrightarrow> lim < n + countEvents (take k gs))"
proof (induction gs arbitrary: n)
  case Nil
  then show ?case by simp
next
  case (Cons g gs)
  let ?n = "n + int (length (events g))"
  show ?case
  proof (cases "lim < ?n")
    case True
    have "map the (filter (\<lambda>g. g \<noteq> None) (limitDays lim n False (g # gs))) = take 1 (g # gs)"
      using True by (simp add: Let_def limitDays_maxed del: not_None_eq)
    moreover have "lim < n + countEvents (take 1 (g # gs))"
      using True by (simp add: countEvents_def)
    ultimately show ?thesis
      by (intro exI [of _ 1]) auto
  next
    case False
    from Cons.IH [of ?n] obtain k where k: "k \<le> length gs"
      "map the (filter (\<lambda>g. g \<noteq> None) (limitDays lim ?n False gs)) = take k gs"
      "\<forall>j. 0 < j \<and> j < k \<longrightarrow> ?n + countEvents (take j gs) \<le> lim"
      "k < length gs \<longrightarrow> lim < ?n + countEvents (take k gs)"
      by blast
    have res: "map the (filter (\<lambda>g. g \<noteq> None) (limitDays lim n False (g # gs)))
                 = take (Suc k) (g # gs)"
      using False k(2) by (simp add: Let_def del: not_None_eq)
    have below: "n + countEvents (take j (g # gs)) \<le> lim" if "0 < j" "j < Suc k" for j
    proof (cases j)
      case 0
      with that show ?thesis by simp
    next
      case (Suc j')
      show ?thesis
      proof (cases "j' = 0")
        case True
        with Suc False show ?thesis by (simp add: countEvents_def)
      next
        case False
        with Suc that k(3) have "?n + countEvents (take j' gs) \<le> lim" by simp
        with Suc show ?thesis by (simp add: countEvents_Cons add.assoc)
      qed
    qed
    have over: "Suc k < length (g # gs) \<longrightarrow> lim < n + countEvents (take (Suc k) (g # gs))"
      using k(4) by (simp add: countEvents_Cons add.assoc)
    show ?thesis
      using k(1) res below over by (intro exI [of _ "Suc k"]) auto
  qed
qed

section \<open>Properties of processEvents\<close>

lemma findOrigin_originCalendar_update [simp]:
  "findOrigin cfg (raw\<lparr>originCalendar := x\<rparr>) = findOrigin cfg raw"
  by (simp add: findOrigin_def split: list.splits)

lemma convertEvent_store:
  assumes "convertEvent cfg H h evs r = (h', res)"
  shows "(\<exists>err. findOrigin cfg (h r) = Inl err \<and> h' = h \<and> res = Inl err)
         \<or> (\<exists>oc. findOrigin cfg (h r) = Inr oc \<and> h' = h(r := (h r)\<lparr>originCalendar := Some oc\<rparr>))"
  using assms
  by (auto simp: convertEvent_def Let_def split: sum.splits if_splits bool.splits)

lemma reduceEvents_store:
  assumes "reduceEvents cfg H h evs rs = (h', Inr out)"
  shows "(r \<in> set rs \<longrightarrow>
            (\<exists>oc. findOrigin cfg (h r) = Inr oc \<and> h' r = (h r)\<lparr>originCalendar := Some oc\<rparr>))
         \<and> (r \<notin> set rs \<longrightarrow> h' r = h r)"
  using assms
proof (induction rs arbitrary: h evs)
  case Nil
  then show ?case by simp
next
  case (Cons r0 rs)
  obtain h1 res1 where step: "convertEvent cfg H h evs r0 = (h1, res1)"
    by (cases "convertEvent cfg H h evs r0") auto
  with Cons.prems obtain evs1 where res1: "res1 = Inr evs1"
    and rest: "reduceEvents cfg H h1 evs1 rs = (h', Inr out)"
    by (cases res1) auto
  from convertEvent_store [OF step] res1 obtain oc0 where
    oc0: "findOrigin cfg (h r0) = Inr oc0" "h1 = h(r0 := (h r0)\<lparr>originCalendar := Some oc0\<rparr>)"
    by auto
  from Cons.IH [OF rest] have
    ih_in: "r \<in> set rs \<Longrightarrow> \<exists>oc. findOrigin cfg (h1 r) = Inr oc \<and> h' r = (h1 r)\<lparr>originCalendar := Some oc\<rparr>"
    and ih_out: "r \<notin> set rs \<Longrightarrow> h' r = h1 r"
    by auto
  show ?case
  proof (cases "r = r0")
    case True
    show ?thesis
    proof (cases "r \<in> set rs")
      case True
      from ih_in [OF True] \<open>r = r0\<close> oc0 show ?thesis by auto
    next
      case False
      from ih_out [OF False] \<open>r = r0\<close> oc0 show ?thesis by auto
    qed
  next
    case False
    then have "h1 r = h r" using oc0(2) by simp
    with False ih_in ih_out show ?thesis by auto
  qed
qed

text \<open>The loop keeps, in order, the occurrences for the days \<open>i\<close> to \<open>n - 1\<close> that start
  before \<open>endDate\<close>.\<close>

lemma partialEventsLoop_filter:
  "partialEventsLoop H endDate raw n i acc =
     acc @ filter (\<lambda>p. startDateTime p < endDate)
             (map (\<lambda>k. CalendarEvent H ((jsonCopy raw)\<lparr>addDays := Some k, daysLong := Some n\<rparr>))
                [i .. n - 1])"
proof (induction H endDate raw n i acc rule: partialEventsLoop.induct)
  case (1 H endDate raw n i partialEvents)
  show ?case
  proof (cases "i < n")
    case True
    then have range: "[i .. n - 1] = i # [i + 1 .. n - 1]"
      by (simp add: upto_rec1)
    show ?thesis
      using True "1.IH" [OF True refl refl]
      by (subst partialEventsLoop.simps) (simp add: range Let_def isAfter_def)
  next
    case False
    then show ?thesis
      by (subst partialEventsLoop.simps) simp
  qed
qed

lemma expandMultiDay_members:
  assumes "e \<in> set (expandMultiDay cfg H newEvent)"
  shows "addDays (rawEvent e) \<noteq> None
         \<and> startDateTime e < add_days (startOfDay (now H)) (numberOfDays cfg)"
  using assms
  by (auto simp: expandMultiDay_def Let_def partialEventsLoop_filter CalendarEvent_def)

lemma convertEvent_events:
  assumes "convertEvent cfg H h evs r = (h', Inr evs')"
  shows "\<exists>h1. h1 r = (h' r) \<and> addDays (h1 r) = addDays (h r)
           \<and> (evs' = evs \<or> evs' = evs @ [CalendarEvent H (h1 r)]
               \<or> evs' = evs @ expandMultiDay cfg H (CalendarEvent H (h1 r)))"
  using assms
  by (auto simp: convertEvent_def Let_def split: sum.splits if_splits bool.splits)

lemma convertEvent_addDays:
  assumes "convertEvent cfg H h evs r = (h', res)"
  shows "addDays (h' r') = addDays (h r')"
  using convertEvent_store [OF assms] by auto

lemma reduceEvents_window:
  assumes "reduceEvents cfg H h evs rs = (h', Inr out)"
    and "\<forall>r \<in> set rs. addDays (h r) = None"
    and "\<forall>e \<in> set evs. addDays (rawEvent e) \<noteq> None
           \<longrightarrow> startDateTime e < add_days (startOfDay (now H)) (numberOfDays cfg)"
  shows "\<forall>e \<in> set out. addDays (rawEvent e) \<noteq> None
           \<longrightarrow> startDateTime e < add_days (startOfDay (now H)) (numberOfDays cfg)"
  using assms
proof (induction rs arbitrary: h evs)
  case Nil
  then show ?case by simp
next
  case (Cons r0 rs)
  obtain h1 res1 where step: "convertEvent cfg H h evs r0 = (h1, res1)"
    by (cases "convertEvent cfg H h evs r0") auto
  with Cons.prems(1) obtain evs1 where res1: "res1 = Inr evs1"
    and rest: "reduceEvents cfg H h1 evs1 rs = (h', Inr out)"
    by (cases res1) auto
  have stamps: "\<forall>r \<in> set rs. addDays (h1 r) = None"
    using convertEvent_addDays [OF step] Cons.prems(2) by simp
  from convertEvent_events [OF step [unfolded res1]] obtain hx where
    hx: "addDays (hx r0) = addDays (h r0)"
      "evs1 = evs \<or> evs1 = evs @ [CalendarEvent H (hx r0)]
         \<or> evs1 = evs @ expandMultiDay cfg H (CalendarEvent H (hx r0))"
    by blast
  have fresh: "addDays (rawEvent (CalendarEvent H (hx r0))) = None"
    using hx(1) Cons.prems(2) by (simp add: CalendarEvent_def)
  have "\<forall>e \<in> set evs1. addDays (rawEvent e) \<noteq> None
           \<longrightarrow> startDateTime e < add_days (startOfDay (now H)) (numberOfDays cfg)"
    using hx(2) Cons.prems(3) fresh expandMultiDay_members [of _ cfg H "CalendarEvent H (hx r0)"]
    by auto
  with Cons.IH [OF rest stamps] show ?case by blast
qed

lemma hostSort_compareStart:
  assumes "hostSort compareStart xs ys"
  shows "sorted (map startDateTime ys)" and "mset ys = mset xs"
proof -
  have "\<not> compareStart b a < 0 \<longleftrightarrow> startDateTime a \<le> startDateTime b"
    for a b :: "'a calendarEvent"
    by (auto simp: compareStart_def isBefore_def)
  then have "sorted_wrt (\<lambda>a b. startDateTime a \<le> startDateTime b) ys"
    using assms by (simp add: hostSort_def)
  then show "sorted (map startDateTime ys)"
    by (simp add: sorted_map)
  from assms show "mset ys = mset xs"
    by (simp add: hostSort_def)
qed

lemma processEvents_returns:
  assumes "processEvents cfg H h allEvents (h', Inr out)"
  shows "\<exists>newEvents. reduceEvents cfg H h [] (uniqueEvents h allEvents) = (h', Inr newEvents)
           \<and> hostSort compareStart newEvents out"
  using assms by (auto simp: processEvents_def split: prod.splits sum.splits)

section \<open>The sort of the host\<close>

lemma compareStart_sign:
  "\<not> compareStart b a < 0 \<longleftrightarrow> startDateTime a \<le> startDateTime b"
  "compareStart a b > 0 \<longleftrightarrow> startDateTime b \<le> startDateTime a"
  by (auto simp: compareStart_def isBefore_def)

text \<open>The stable order is one of the results the host may give, so a call always ends.\<close>

lemma hostSort_stable_result: "hostSort compareStart xs (sort_key startDateTime xs)"
proof -
  have "sorted (map startDateTime (sort_key startDateTime xs))"
    by (rule sorted_sort_key)
  then have "sorted_wrt (\<lambda>a b. \<not> compareStart b a < 0) (sort_key startDateTime xs)"
    by (simp add: sorted_map compareStart_sign)
  then show ?thesis by (simp add: hostSort_def)
qed

lemma processEvents_ends: "\<exists>out. processEvents cfg H h allEvents out"
proof (cases "reduceEvents cfg H h [] (uniqueEvents h allEvents)")
  case (Pair h' res)
  show ?thesis
  proof (cases res)
    case (Inl err)
    with Pair have "processEvents cfg H h allEvents (h', Inl err)"
      by (simp add: processEvents_def)
    then show ?thesis ..
  next
    case (Inr newEvents)
    with Pair have "processEvents cfg H h allEvents (h', Inr (sort_key startDateTime newEvents))"
      by (simp add: processEvents_def hostSort_stable_result)
    then show ?thesis ..
  qed
qed

lemma mset_shiftIn: "mset (shiftIn cmp item acc) = add_mset item (mset acc)"
  by (induction acc) auto

lemma set_shiftIn: "set (shiftIn cmp item acc) = insert item (set acc)"
  by (induction acc) auto

lemma sorted_shiftIn:
  assumes "sorted_wrt (\<lambda>a b. startDateTime b \<le> startDateTime a) acc"
  shows "sorted_wrt (\<lambda>a b. startDateTime b \<le> startDateTime a) (shiftIn compareStart item acc)"
  using assms
proof (induction acc)
  case Nil
  then show ?case by simp
next
  case (Cons p ps)
  show ?case
  proof (cases "compareStart p item > 0")
    case True
    then have "startDateTime item \<le> startDateTime p" by (simp add: compareStart_sign)
    with True Cons show ?thesis by (auto simp: set_shiftIn)
  next
    case False
    then have "startDateTime p < startDateTime item" by (simp add: compareStart_sign)
    with False Cons.prems show ?thesis by fastforce
  qed
qed

lemma foldl_shiftIn:
  assumes "sorted_wrt (\<lambda>a b. startDateTime b \<le> startDateTime a) acc"
  shows "sorted_wrt (\<lambda>a b. startDateTime b \<le> startDateTime a)
           (foldl (\<lambda>sortedPart item. shiftIn compareStart item sortedPart) acc xs)
         \<and> mset (foldl (\<lambda>sortedPart item. shiftIn compareStart item sortedPart) acc xs)
             = mset acc + mset xs"
  using assms by (induction xs arbitrary: acc) (auto simp: sorted_shiftIn mset_shiftIn)

lemma hostSort_insertionSort: "hostSort compareStart xs (insertionSort compareStart xs)"
  using foldl_shiftIn [of "[]" xs]
  by (simp add: hostSort_def insertionSort_def sorted_wrt_rev compareStart_sign)

lemma insertionSort_swaps_equal_starts:
  "insertionSort compareStart [tieStandup, tieReview] = [tieReview, tieStandup]"
  by (simp add: insertionSort_def compareStart_def isBefore_def sample_run_defs sample_defs)

lemma stable_keeps_equal_starts:
  "sort_key startDateTime [tieStandup, tieReview] = [tieStandup, tieReview]"
  by (simp add: sample_run_defs sample_defs)

lemmas run_defs =
  processEvents_def uniqueEvents_def filterFirstIndex_def searchedKey_def eventKey_def
  js_or_def truthy_def convertEvent_def findOrigin_def matchesIgnore_def expandMultiDay_def
  countDays_def partialEventsLoop_filter jsonCopy_def hostSort_def compareStart_def
  isBefore_def isAfter_def startOfDay_def add_days_def diffDays_def hour_def minutes_def
  Let_def upto.simps

section \<open>Claims about groupEventsByDay\<close>

text \<open>
  C2, as the code has it. With \<open>eventsLimit = 2\<close>, two events on one day and a third on
  another day, the result holds both days: after the first day the count is 2, which is
  not above the limit, so the second day is still taken; it is the day that brings the
  count above the limit, and it is kept whole. (\<open>numberOfDays\<close> is not read by
  \<open>groupEventsByDay\<close>.)
\<close>

theorem groupEventsByDay_limit_two_keeps_both_days:
  assumes "formatDay (startDateTime e1) = d1" "formatDay (startDateTime e2) = d1"
    and "formatDay (startDateTime e3) = d2" "d1 \<noteq> d2" "eventsLimit cfg = 2"
  shows "groupEventsByDay [e1, e2, e3] cfg
           = [\<lparr>day = d1, events = [e1, e2]\<rparr>, \<lparr>day = d2, events = [e3]\<rparr>]"
  using assms by (auto simp add: groupEventsByDay_def groupedEvents_def groupStep_def Let_def)

theorem groupEventsByDay_limit_two_keeps_both_days_witness:
  "groupEventsByDay
     [sampleEvent ''a'' (atDay 1 9) (atDay 1 10), sampleEvent ''b'' (atDay 1 14) (atDay 1 15),
      sampleEvent ''c'' (atDay 2 10) (atDay 2 11)]
     ((defaultConfig [])\<lparr>numberOfDays := 3, eventsLimit := 2\<rparr>)
   = [\<lparr>day = 1, events = [sampleEvent ''a'' (atDay 1 9) (atDay 1 10),
                            sampleEvent ''b'' (atDay 1 14) (atDay 1 15)]\<rparr>,
      \<lparr>day = 2, events = [sampleEvent ''c'' (atDay 2 10) (atDay 2 11)]\<rparr>]"
  using groupEventsByDay_limit_two_keeps_both_days
    [of "sampleEvent ''a'' (atDay 1 9) (atDay 1 10)" 1
        "sampleEvent ''b'' (atDay 1 14) (atDay 1 15)"
        "sampleEvent ''c'' (atDay 2 10) (atDay 2 11)" 2
        "(defaultConfig [])\<lparr>numberOfDays := 3, eventsLimit := 2\<rparr>"]
  by (simp add: sample_defs)

text \<open>C2 as stated fails: in the scenario the output is not day 1 alone, day 2 is in it.\<close>

theorem groupEventsByDay_day_two_not_dropped:
  "map day (groupEventsByDay
     [sampleEvent ''a'' (atDay 1 9) (atDay 1 10), sampleEvent ''b'' (atDay 1 14) (atDay 1 15),
      sampleEvent ''c'' (atDay 2 10) (atDay 2 11)]
     ((defaultConfig [])\<lparr>numberOfDays := 3, eventsLimit := 2\<rparr>)) = [1, 2]
   \<and> groupEventsByDay
     [sampleEvent ''a'' (atDay 1 9) (atDay 1 10), sampleEvent ''b'' (atDay 1 14) (atDay 1 15),
      sampleEvent ''c'' (atDay 2 10) (atDay 2 11)]
     ((defaultConfig [])\<lparr>numberOfDays := 3, eventsLimit := 2\<rparr>)
   \<noteq> [\<lparr>day = 1, events = [sampleEvent ''a'' (atDay 1 9) (atDay 1 10),
                            sampleEvent ''b'' (atDay 1 14) (atDay 1 15)]\<rparr>]"
  by (simp add: groupEventsByDay_def groupedEvents_def groupStep_def Let_def sample_defs)

text \<open>
  C3. The result of \<open>groupEventsByDay\<close> is the first \<open>k\<close> day groups of the grouping,
  each with all the events of its day. The first day is always among them. No day
  before the last one kept brings the count above \<open>eventsLimit\<close>, and when days are
  dropped, the last day kept is the one that brings the count above the limit.
\<close>

theorem groupEventsByDay_day_atomic:
  "\<exists>k \<le> length (groupedEvents evs).
       groupEventsByDay evs cfg = take k (groupedEvents evs)
     \<and> (groupedEvents evs \<noteq> [] \<longrightarrow> 0 < k)
     \<and> (\<forall>j. 0 < j \<and> j < k \<longrightarrow> countEvents (take j (groupedEvents evs)) \<le> eventsLimit cfg)
     \<and> (k < length (groupedEvents evs)
           \<longrightarrow> eventsLimit cfg < countEvents (take k (groupedEvents evs)))
     \<and> distinct (map day (groupedEvents evs))
     \<and> (\<forall>g \<in> set (groupEventsByDay evs cfg).
           events g = filter (\<lambda>e. formatDay (startDateTime e) = day g) evs)"
proof -
  from limitDays_prefix [of "groupedEvents evs" "eventsLimit cfg" 0]
  obtain k where k: "k \<le> length (groupedEvents evs)"
    "groupEventsByDay evs cfg = take k (groupedEvents evs)"
    "groupedEvents evs \<noteq> [] \<longrightarrow> 0 < k"
    "\<forall>j. 0 < j \<and> j < k \<longrightarrow> countEvents (take j (groupedEvents evs)) \<le> eventsLimit cfg"
    "k < length (groupedEvents evs)
       \<longrightarrow> eventsLimit cfg < countEvents (take k (groupedEvents evs))"
    unfolding groupEventsByDay_def by auto
  have "set (take k (groupedEvents evs)) \<subseteq> set (groupedEvents evs)"
    by (rule set_take_subset)
  then have full: "\<forall>g \<in> set (groupEventsByDay evs cfg).
      events g = filter (\<lambda>e. formatDay (startDateTime e) = day g) evs"
    using groupedEvents_inv [of evs] k(2) by auto
  have "distinct (map day (groupedEvents evs))"
    using groupedEvents_inv [of evs] by blast
  with k full show ?thesis by blast
qed

theorem groupEventsByDay_day_atomic_witness:
  "groupEventsByDay
     [sampleEvent ''a'' (atDay 1 9) (atDay 1 10), sampleEvent ''b'' (atDay 2 9) (atDay 2 10),
      sampleEvent ''c'' (atDay 2 14) (atDay 2 15), sampleEvent ''d'' (atDay 3 8) (atDay 3 9)]
     ((defaultConfig [])\<lparr>eventsLimit := 2\<rparr>)
   = take 2 (groupedEvents
     [sampleEvent ''a'' (atDay 1 9) (atDay 1 10), sampleEvent ''b'' (atDay 2 9) (atDay 2 10),
      sampleEvent ''c'' (atDay 2 14) (atDay 2 15), sampleEvent ''d'' (atDay 3 8) (atDay 3 9)])
   \<and> length (groupedEvents
     [sampleEvent ''a'' (atDay 1 9) (atDay 1 10), sampleEvent ''b'' (atDay 2 9) (atDay 2 10),
      sampleEvent ''c'' (atDay 2 14) (atDay 2 15), sampleEvent ''d'' (atDay 3 8) (atDay 3 9)]) = 3
   \<and> countEvents (take 1 (groupedEvents
     [sampleEvent ''a'' (atDay 1 9) (atDay 1 10), sampleEvent ''b'' (atDay 2 9) (atDay 2 10),
      sampleEvent ''c'' (atDay 2 14) (atDay 2 15), sampleEvent ''d'' (atDay 3 8) (atDay 3 9)])) = 1
   \<and> countEvents (take 2 (groupedEvents
     [sampleEvent ''a'' (atDay 1 9) (atDay 1 10), sampleEvent ''b'' (atDay 2 9) (atDay 2 10),
      sampleEvent ''c'' (atDay 2 14) (atDay 2 15), sampleEvent ''d'' (atDay 3 8) (atDay 3 9)])) = 3"
  using groupEventsByDay_day_atomic
    [of "[sampleEvent ''a'' (atDay 1 9) (atDay 1 10), sampleEvent ''b'' (atDay 2 9) (atDay 2 10),
          sampleEvent ''c'' (atDay 2 14) (atDay 2 15), sampleEvent ''d'' (atDay 3 8) (atDay 3 9)]"
        "(defaultConfig [])\<lparr>eventsLimit := 2\<rparr>"]
  by (simp add: groupEventsByDay_def groupedEvents_def groupStep_def Let_def countEvents_def
      sample_defs)


section \<open>Claims about the uniqueness filter and the defaults\<close>

text \<open>
  C8. Filtering the output of the uniqueness filter again changes nothing; the output is
  no longer than the input; no two events kept have the same key, whichever of the two
  readings of the key is taken (on an event kept the two readings agree).
\<close>

theorem uniqueEvents_idempotent:
  "uniqueEvents h (uniqueEvents h allEvents) = uniqueEvents h allEvents
   \<and> length (uniqueEvents h allEvents) \<le> length allEvents
   \<and> distinct (map (eventKey h) (uniqueEvents h allEvents))
   \<and> map (searchedKey h) (uniqueEvents h allEvents) = map (eventKey h) (uniqueEvents h allEvents)"
proof -
  have "map (searchedKey h) (keepFresh (searchedKey h) (eventKey h) {} allEvents)
          = map (eventKey h) (keepFresh (searchedKey h) (eventKey h) {} allEvents)"
    using keepFresh_member [of _ "searchedKey h" "eventKey h" "{}" allEvents] by simp
  then show ?thesis
    unfolding uniqueEvents_def filterFirstIndex_keepFresh
    using keepFresh_idem [of "searchedKey h" "eventKey h" allEvents]
      keepFresh_length [of "searchedKey h" "eventKey h" "{}" allEvents]
      keepFresh_distinct [of "eventKey h" "searchedKey h" "{}" allEvents]
    by simp
qed

theorem uniqueEvents_idempotent_witness:
  "uniqueEvents
     (emptyStore
       (0 := fetched None (Some ''u1'') (EntityId ''calendar.a'') 0 (hoursMs 1) ''A'',
        1 := fetched (Some ''g7'') None (EntityId ''calendar.b'') 0 (hoursMs 1) ''B'',
        2 := fetched None (Some ''u1'') (EntityId ''calendar.b'') 0 (hoursMs 1) ''A''))
     [0, 1, 2] = [0, 1]
   \<and> uniqueEvents
     (emptyStore
       (0 := fetched None (Some ''u1'') (EntityId ''calendar.a'') 0 (hoursMs 1) ''A'',
        1 := fetched (Some ''g7'') None (EntityId ''calendar.b'') 0 (hoursMs 1) ''B'',
        2 := fetched None (Some ''u1'') (EntityId ''calendar.b'') 0 (hoursMs 1) ''A''))
     [0, 1] = [0, 1]"
  using uniqueEvents_idempotent
    [of "emptyStore
       (0 := fetched None (Some ''u1'') (EntityId ''calendar.a'') 0 (hoursMs 1) ''A'',
        1 := fetched (Some ''g7'') None (EntityId ''calendar.b'') 0 (hoursMs 1) ''B'',
        2 := fetched None (Some ''u1'') (EntityId ''calendar.b'') 0 (hoursMs 1) ''A'')"
      "[0, 1, 2]"]
  by (simp add: uniqueEvents_def filterFirstIndex_def searchedKey_def eventKey_def js_or_def
      truthy_def fetched_def emptyStore_def)

text \<open>
  C1 on an event that carries both an \<open>id\<close> and a different \<open>uid\<close>: the filter looks for
  the event's \<open>uid\<close> among the \<open>id\<close>s, finds no element at the event's own index, and
  drops the event although nothing came before it.
\<close>

theorem uniqueEvents_drops_event_with_id_and_uid:
  "uniqueEvents
     (emptyStore
       (0 := fetched (Some ''1'') (Some ''x'') (EntityId ''calendar.a'') 0 (hoursMs 1) ''A''))
     [0] = []"
  by (simp add: uniqueEvents_def filterFirstIndex_def searchedKey_def eventKey_def js_or_def
      truthy_def fetched_def emptyStore_def)

text \<open>
  C9, as the table has it: \<open>numberOfDays\<close> is 7, \<open>eventsLimit\<close> is 99, both ignore
  expressions are empty, \<open>showLocationIcon\<close> is true and every other boolean field is
  false.
\<close>

theorem defaults_values:
  "numberOfDays defaults = 7 \<and> eventsLimit defaults = 99
   \<and> ignoreEventsExpression defaults = [] \<and> ignoreEventsByLocationExpression defaults = []
   \<and> showLocationIcon defaults = True
   \<and> hideTime defaults = False \<and> progressBar defaults = False
   \<and> showLocation defaults = False \<and> startFromToday defaults = False
   \<and> hidePastEvents defaults = False \<and> showMultiDay defaults = False
   \<and> showEventOrigin defaults = False \<and> hideHeader defaults = False
   \<and> highlightToday defaults = False"
  by (simp add: defaults_def)

text \<open>C9 as stated fails: one boolean field of the table is not false.\<close>

theorem defaults_showLocationIcon_not_false: "showLocationIcon defaults \<noteq> False"
  by (simp add: defaults_def)


section \<open>Claims about processEvents\<close>

lemma sample_run:
  "processEvents sampleConfig sampleHost sampleStore [0, 1]
     (sampleStoreAfter, Inr [sampleTripDay 0, sampleStandup, sampleTripDay 1])"
  by (simp add: run_defs sample_run_defs sample_defs)

lemma sample_starts:
  "map startDateTime [sampleTripDay 0, sampleStandup, sampleTripDay 1, sampleTripDay 2]
     = [atDay 0 0, atDay 0 9, atDay 1 0, atDay 2 0]"
  by (simp add: sample_run_defs sample_defs jsonCopy_def)

lemma sample_window_end:
  "add_days (startOfDay (now sampleHost)) (numberOfDays sampleConfig) = atDay 2 0"
  by (simp add: add_days_def startOfDay_def sample_run_defs sample_defs)

text \<open>
  C4, as far as the code fixes it. Whatever the engine's sort does with the events the
  comparator does not separate, the array that \<open>processEvents\<close> returns is a reordering
  of the events it converted, ascending by \<open>startDateTime\<close>.
\<close>

theorem processEvents_sorted_by_start:
  assumes "processEvents cfg H h allEvents (h', Inr out)"
  shows "sorted (map startDateTime out)
         \<and> (\<exists>newEvents. reduceEvents cfg H h [] (uniqueEvents h allEvents) = (h', Inr newEvents)
               \<and> mset out = mset newEvents)"
proof -
  from processEvents_returns [OF assms] obtain newEvents where
    run: "reduceEvents cfg H h [] (uniqueEvents h allEvents) = (h', Inr newEvents)"
    and srt: "hostSort compareStart newEvents out"
    by blast
  from hostSort_compareStart [OF srt] run show ?thesis by blast
qed

theorem processEvents_sorted_by_start_witness:
  "processEvents sampleConfig sampleHost sampleStore [0, 1]
     (sampleStoreAfter, Inr [sampleTripDay 0, sampleStandup, sampleTripDay 1])
   \<and> sorted (map startDateTime [sampleTripDay 0, sampleStandup, sampleTripDay 1])
   \<and> map startDateTime [sampleTripDay 0, sampleStandup, sampleTripDay 1]
       = [atDay 0 0, atDay 0 9, atDay 1 0]"
proof -
  from processEvents_sorted_by_start [OF sample_run]
  have "sorted (map startDateTime [sampleTripDay 0, sampleStandup, sampleTripDay 1])"
    by blast
  with sample_run sample_starts show ?thesis by simp
qed

text \<open>
  C4 as stated fails on two events with the same \<open>startDateTime\<close>: the comparator
  answers 1 for the pair in either order, and the run may end with the two events in
  the opposite order to the one they had before the sort.
\<close>

theorem processEvents_may_swap_equal_starts:
  "processEvents sampleConfig sampleHost tieStore [0, 1]
     (tieStoreAfter, Inr [tieReview, tieStandup])
   \<and> snd (reduceEvents sampleConfig sampleHost tieStore [] (uniqueEvents tieStore [0, 1]))
       = Inr [tieStandup, tieReview]
   \<and> startDateTime tieStandup = startDateTime tieReview
   \<and> tieStandup \<noteq> tieReview
   \<and> compareStart tieStandup tieReview = 1 \<and> compareStart tieReview tieStandup = 1"
  by (simp add: run_defs sample_run_defs sample_defs)

text \<open>
  C5 on a configuration whose entities are bare ids: \<open>.entity\<close> of a string is
  \<open>undefined\<close> on both sides of the comparison, so the first bare id of the
  configuration matches every event that came from a bare id. An event of
  \<open>calendar.b\<close> is attributed to \<open>calendar.a\<close>.
\<close>

theorem findOrigin_bare_ids_first_entity:
  "findOrigin (defaultConfig [EntityId ''calendar.a'', EntityId ''calendar.b''])
     (fetched (Some ''g1'') None (EntityId ''calendar.b'') (atDay 0 9) (atDay 0 10) ''Standup'')
   = Inr (Some (EntityId ''calendar.a''))"
  by (simp add: findOrigin_def fetched_def defaultConfig_def defaults_def card_defaults.defs
      config.defs)

text \<open>For an event that came from an entity object the search does what C5 says: it
  gives the first configured entity with the same id, if there is one.\<close>

lemma findOrigin_entity_object:
  assumes "entity raw = Some (EntityObj i n)" "entities cfg \<noteq> []"
  shows "findOrigin cfg raw = Inr (find (\<lambda>d. entity_prop d = Some i) (entities cfg))"
  using assms by (simp add: findOrigin_def split: list.splits)

text \<open>
  C6 on an event that is not an all-day event: it starts at 10:00 of day 0 and ends at
  00:00 of day 2. The whole days between start and end are 1, so the count before the
  decrement is 2; the end has hour 0 and minute 0, the decrement is applied, and the
  count is 1.
\<close>

theorem countDays_timed_event_ending_at_midnight:
  "countDays (sampleEvent ''Fair'' (atDay 0 10) (atDay 2 0)) = 1
   \<and> diffDays (endDateTime (sampleEvent ''Fair'' (atDay 0 10) (atDay 2 0)))
        (startDateTime (sampleEvent ''Fair'' (atDay 0 10) (atDay 2 0))) + 1 = 2
   \<and> hour (startDateTime (sampleEvent ''Fair'' (atDay 0 10) (atDay 2 0))) = 10"
  by (simp add: countDays_def diffDays_def hour_def minutes_def Let_def sample_defs)

text \<open>
  C7. Every occurrence that an expansion builds carries \<open>addDays\<close> and starts before
  the start of today plus \<open>numberOfDays\<close> days. So when the fetched events carry no
  \<open>addDays\<close> of their own, every event of the returned array that carries one is such
  an occurrence and starts before that bound.
\<close>

theorem processEvents_occurrences_in_window:
  assumes "processEvents cfg H h allEvents (h', Inr out)"
    and "\<forall>r \<in> set allEvents. addDays (h r) = None"
  shows "(\<forall>e \<in> set out. addDays (rawEvent e) \<noteq> None
            \<longrightarrow> startDateTime e < add_days (startOfDay (now H)) (numberOfDays cfg))
         \<and> (\<forall>newEvent. \<forall>e \<in> set (expandMultiDay cfg H newEvent).
               addDays (rawEvent e) \<noteq> None
               \<and> startDateTime e < add_days (startOfDay (now H)) (numberOfDays cfg))"
proof -
  from processEvents_returns [OF assms(1)] obtain newEvents where
    run: "reduceEvents cfg H h [] (uniqueEvents h allEvents) = (h', Inr newEvents)"
    and srt: "hostSort compareStart newEvents out"
    by blast
  have "set (uniqueEvents h allEvents) \<subseteq> set allEvents"
    unfolding uniqueEvents_def filterFirstIndex_keepFresh
    using keepFresh_member [of _ "searchedKey h" "eventKey h" "{}" allEvents] by blast
  with assms(2) have "\<forall>r \<in> set (uniqueEvents h allEvents). addDays (h r) = None"
    by blast
  from reduceEvents_window [OF run this] have
    "\<forall>e \<in> set newEvents. addDays (rawEvent e) \<noteq> None
       \<longrightarrow> startDateTime e < add_days (startOfDay (now H)) (numberOfDays cfg)"
    by simp
  moreover have "set out = set newEvents"
    using hostSort_compareStart(2) [OF srt] by (rule mset_eq_setD)
  ultimately show ?thesis
    using expandMultiDay_members [of _ cfg H] by blast
qed

theorem processEvents_occurrences_in_window_witness:
  "processEvents sampleConfig sampleHost sampleStore [0, 1]
     (sampleStoreAfter, Inr [sampleTripDay 0, sampleStandup, sampleTripDay 1])
   \<and> addDays (sampleStore 0) = None \<and> addDays (sampleStore 1) = None
   \<and> addDays (rawEvent (sampleTripDay 1)) = Some 1
   \<and> startDateTime (sampleTripDay 1)
        < add_days (startOfDay (now sampleHost)) (numberOfDays sampleConfig)
   \<and> add_days (startOfDay (now sampleHost)) (numberOfDays sampleConfig) = atDay 2 0
   \<and> startDateTime (sampleTripDay 2) = atDay 2 0"
proof -
  have stamps: "\<forall>r \<in> set [0, 1]. addDays (sampleStore r) = None"
    by (simp add: sample_run_defs fetched_def)
  have stamp: "addDays (rawEvent (sampleTripDay 1)) = Some 1"
    by (simp add: sampleTripDay_def CalendarEvent_def)
  from processEvents_occurrences_in_window [OF sample_run stamps]
  have "\<forall>e \<in> set [sampleTripDay 0, sampleStandup, sampleTripDay 1].
          addDays (rawEvent e) \<noteq> None
          \<longrightarrow> startDateTime e < add_days (startOfDay (now sampleHost)) (numberOfDays sampleConfig)"
    by blast
  with stamp have "startDateTime (sampleTripDay 1)
      < add_days (startOfDay (now sampleHost)) (numberOfDays sampleConfig)"
    by simp
  with sample_run stamps stamp sample_window_end sample_starts show ?thesis by simp
qed

text \<open>
  C10. A call that returns leaves every raw event it processed (those the uniqueness
  filter kept) with \<open>originCalendar\<close> set, in the caller's own record, to the result of
  the search; every other record of the store is as it was.
\<close>

theorem processEvents_writes_originCalendar:
  assumes "processEvents cfg H h allEvents (h', Inr out)"
  shows "(r \<in> set (uniqueEvents h allEvents) \<longrightarrow>
            (\<exists>oc. findOrigin cfg (h r) = Inr oc \<and> h' r = (h r)\<lparr>originCalendar := Some oc\<rparr>))
         \<and> (r \<notin> set (uniqueEvents h allEvents) \<longrightarrow> h' r = h r)"
proof -
  from processEvents_returns [OF assms] obtain newEvents where
    "reduceEvents cfg H h [] (uniqueEvents h allEvents) = (h', Inr newEvents)"
    by blast
  from reduceEvents_store [OF this] show ?thesis .
qed

theorem processEvents_writes_originCalendar_witness:
  "processEvents sampleConfig sampleHost sampleStore [0, 1]
     (sampleStoreAfter, Inr [sampleTripDay 0, sampleStandup, sampleTripDay 1])
   \<and> uniqueEvents sampleStore [0, 1] = [0, 1]
   \<and> findOrigin sampleConfig (sampleStore 0) = Inr (Some calWork)
   \<and> originCalendar (sampleStore 0) = None
   \<and> sampleStoreAfter 0 = (sampleStore 0)\<lparr>originCalendar := Some (Some calWork)\<rparr>
   \<and> sampleStoreAfter 2 = sampleStore 2"
proof -
  have kept: "uniqueEvents sampleStore [0, 1] = [0, 1]"
    by (simp add: uniqueEvents_def filterFirstIndex_def searchedKey_def eventKey_def js_or_def
        truthy_def sample_run_defs fetched_def)
  have found: "findOrigin sampleConfig (sampleStore 0) = Inr (Some calWork)"
    by (simp add: findOrigin_def sample_run_defs sample_defs)
  have before: "originCalendar (sampleStore 0) = None"
    by (simp add: sample_run_defs fetched_def)
  from processEvents_writes_originCalendar [OF sample_run, of 0] kept found
  have "sampleStoreAfter 0 = (sampleStore 0)\<lparr>originCalendar := Some (Some calWork)\<rparr>"
    by simp
  moreover from processEvents_writes_originCalendar [OF sample_run, of 2] kept
  have "sampleStoreAfter 2 = sampleStore 2"
    by simp
  ultimately show ?thesis using sample_run kept found before by simp
qed


end
